theory Spec2Isabelle
  imports Main
begin

section \<open>The throttler of throttler.go\<close>

subsection \<open>Time, keys and the record\<close>

text \<open>
  A \<open>time.Time\<close> taken by \<open>time.Now()\<close> carries a reading of the monotonic clock, and
  \<open>time.Since\<close> subtracts two such readings. A reading is modelled as an integer number
  of nanoseconds and a \<open>time.Duration\<close> as an integer as well; the saturation of Go's
  64-bit durations (a gap of 292 years) is left out.
\<close>

type_synonym time = int
type_synonym duration = int

definition Since :: "time \<Rightarrow> time \<Rightarrow> duration" where
  \<comment> \<open>\<open>time.Since(t)\<close>, with the clock reading of the call made explicit.\<close>
  "Since now t = now - t"

text \<open>
  The parameter of \<open>Allow\<close> has type \<open>interface{}\<close>, and \<open>valueMap\<close> is indexed with it.
  To a Go map, a value is of one of three kinds:
  \<^item> \<open>Comparable k\<close>: a value that can be hashed and is equal to itself; it is a key in
    the usual sense, found again by \<open>==\<close>;
  \<^item> \<open>NaN\<close>: a value that can be hashed but is not equal to itself (a floating-point
    NaN, or a struct or array that holds one); a lookup with it finds nothing, a store
    with it adds an entry every time, and \<open>delete\<close> with it removes nothing;
  \<^item> \<open>Unhashable\<close>: a value that cannot be hashed (a slice, a map, a function, or a
    struct, array or interface that holds one, whatever its static type); indexing the
    map with it panics at run time.
\<close>

datatype 'k iface = Comparable 'k | NaN | Unhashable

datatype panic = HashOfUnhashableType

text \<open>
  The struct, without its mutex: every call of \<open>Allow\<close> holds \<open>mu\<close> from its first line
  to its return, so a call is one step on this record. \<open>NewThrottler\<close> is the only place
  that builds the struct, and it makes the map, so \<open>valueMap\<close> is never nil.

  The Go map \<open>valueMap\<close> is held in two parts: the field \<open>valueMap\<close> has the entries
  whose key is equal to itself, at most one for a key, and \<open>nanEntries\<close> has the
  timestamps of the entries stored under values that are not equal to themselves, one
  for every such store, in the order of the stores.
\<close>

record 'k throttler =
  valueMap :: "'k \<rightharpoonup> time"
  nanEntries :: "time list"
  throttle :: duration
  cleanup :: duration
  lastClean :: time

definition NewThrottler :: "duration \<Rightarrow> duration \<Rightarrow> time \<Rightarrow> 'k throttler" where
  \<comment> \<open>The third argument is the reading of \<open>time.Now()\<close> on line 31.\<close>
  "NewThrottler thr cln now =
     \<lparr>valueMap = Map.empty, nanEntries = [], throttle = thr, cleanup = cln,
      lastClean = now\<rparr>"

subsection \<open>The clock readings of one call\<close>

text \<open>
  One call of \<open>Allow\<close> reads the clock at five places. Each reading is an input of the
  model, named after the place that takes it:
  \<^item> \<open>at_check\<close>: \<open>time.Since(t.lastClean)\<close> on line 44;
  \<^item> \<open>at_scan val\<close>: \<open>time.Since(lastTime)\<close> on line 46, in the iteration of the range
    loop that visits the key \<open>val\<close> (the loop visits every entry once, in an order Go
    leaves open, so the reading is indexed by the key and not by a position; the
    readings taken for the entries of \<open>nanEntries\<close> decide nothing, since the
    \<open>delete\<close> they guard removes nothing, and are left out);
  \<^item> \<open>at_clean\<close>: \<open>time.Now()\<close> on line 50;
  \<^item> \<open>at_decide\<close>: \<open>time.Since(lastTime)\<close> on line 54;
  \<^item> \<open>at_admit\<close>: \<open>time.Now()\<close> on line 58.
\<close>

record 'k readings =
  at_check :: time
  at_scan :: "'k \<Rightarrow> time"
  at_clean :: time
  at_decide :: time
  at_admit :: time

definition instant :: "time \<Rightarrow> 'k readings" where
  \<comment> \<open>A call during which the clock does not advance: every reading is \<open>now\<close>.\<close>
  "instant now =
     \<lparr>at_check = now, at_scan = (\<lambda>_. now), at_clean = now, at_decide = now, at_admit = now\<rparr>"

subsection \<open>The sweep, lines 44 to 51\<close>

definition cleanupDue :: "'k throttler \<Rightarrow> 'k readings \<Rightarrow> bool" where
  \<comment> \<open>The condition of line 44.\<close>
  "cleanupDue t r = (Since (at_check r) (lastClean t) > cleanup t)"

definition expired :: "'k throttler \<Rightarrow> 'k readings \<Rightarrow> 'k \<Rightarrow> time \<Rightarrow> bool" where
  \<comment> \<open>The condition of line 46 for the entry \<open>val \<mapsto> lastTime\<close>.\<close>
  "expired t r val lastTime = (Since (at_scan r val) lastTime > throttle t)"

definition delete :: "('k \<rightharpoonup> time) \<Rightarrow> 'k iface \<Rightarrow> ('k \<rightharpoonup> time)" where
  \<comment> \<open>The builtin \<open>delete(m, val)\<close>: it removes the entry whose key is equal to \<open>val\<close>,
      and no key is equal to a value that is not equal to itself.\<close>
  "delete m v = (case v of Comparable val \<Rightarrow> m(val := None) | NaN \<Rightarrow> m | Unhashable \<Rightarrow> m)"

fun rangeLoop ::
  "'k throttler \<Rightarrow> 'k readings \<Rightarrow> 'k iface list \<Rightarrow> ('k \<rightharpoonup> time) \<Rightarrow> ('k \<rightharpoonup> time)" where
  \<comment> \<open>Lines 45 to 49, run over the keys in the order the range loop yields them, on the
      part of the table that \<open>delete\<close> can change. For a key that is not equal to itself,
      line 47 removes nothing, whatever line 46 decides; no stored key is unhashable.\<close>
  "rangeLoop t r [] m = m"
| "rangeLoop t r (Comparable val # rest) m =
     (case m val of
        None \<Rightarrow> rangeLoop t r rest m
      | Some lastTime \<Rightarrow>
          if expired t r val lastTime then rangeLoop t r rest (delete m (Comparable val))
          else rangeLoop t r rest m)"
| "rangeLoop t r (NaN # rest) m = rangeLoop t r rest (delete m NaN)"
| "rangeLoop t r (Unhashable # rest) m = rangeLoop t r rest m"

definition scan :: "'k throttler \<Rightarrow> 'k readings \<Rightarrow> ('k \<rightharpoonup> time)" where
  \<comment> \<open>The entries under keys equal to themselves that the range loop leaves, whatever
      its order (lemma \<open>rangeLoop_scan\<close>).\<close>
  "scan t r =
     (\<lambda>val. case valueMap t val of
               None \<Rightarrow> None
             | Some lastTime \<Rightarrow> if expired t r val lastTime then None else Some lastTime)"

definition sweep :: "'k throttler \<Rightarrow> 'k readings \<Rightarrow> 'k throttler" where
  \<comment> \<open>Lines 44 to 51. The loop cannot delete an entry of \<open>nanEntries\<close>: the field stays.\<close>
  "sweep t r =
     (if cleanupDue t r then t\<lparr>valueMap := scan t r, lastClean := at_clean r\<rparr> else t)"

subsection \<open>Allow, lines 39 to 60\<close>

definition throttled :: "'k throttler \<Rightarrow> 'k readings \<Rightarrow> 'k \<Rightarrow> bool" where
  \<comment> \<open>The condition of line 54: \<open>ok && time.Since(lastTime) < t.throttle\<close>.\<close>
  "throttled t r key =
     (case valueMap t key of
        None \<Rightarrow> False
      | Some lastTime \<Rightarrow> Since (at_decide r) lastTime < throttle t)"

definition admit :: "'k throttler \<Rightarrow> 'k readings \<Rightarrow> 'k \<Rightarrow> 'k throttler" where
  \<comment> \<open>Line 58.\<close>
  "admit t r key = t\<lparr>valueMap := (valueMap t)(key \<mapsto> at_admit r)\<rparr>"

definition admitNaN :: "'k throttler \<Rightarrow> 'k readings \<Rightarrow> 'k throttler" where
  \<comment> \<open>Line 58 with a value that is not equal to itself: the store adds an entry.\<close>
  "admitNaN t r = t\<lparr>nanEntries := nanEntries t @ [at_admit r]\<rparr>"

definition Allow ::
  "'k throttler \<Rightarrow> 'k readings \<Rightarrow> 'k iface \<Rightarrow> (panic + bool) \<times> 'k throttler" where
  \<comment> \<open>The result of the call, or the panic that ends it, and the struct it leaves.
      The map access of line 54 panics on a value that cannot be hashed, and finds no
      entry (\<open>ok\<close> is false) for a value that is not equal to itself.\<close>
  "Allow t r v =
     (let t1 = sweep t r in
      case v of
        Unhashable \<Rightarrow> (Inl HashOfUnhashableType, t1)
      | NaN \<Rightarrow> (Inr True, admitNaN t1 r)
      | Comparable key \<Rightarrow>
          if throttled t1 r key then (Inr False, t1)
          else (Inr True, admit t1 r key))"

subsection \<open>Sequences of calls\<close>

text \<open>
  The mutex serialises the calls, so a history of the struct is a list of calls, each with
  its own clock readings and its argument, run one after the other from the left.
\<close>

type_synonym 'k call = "'k readings \<times> 'k iface"

fun run :: "'k throttler \<Rightarrow> 'k call list \<Rightarrow> (panic + bool) list \<times> 'k throttler" where
  "run t [] = ([], t)"
| "run t ((r, v) # calls) =
     (case Allow t r v of
        (res, t1) \<Rightarrow> (case run t1 calls of (ress, t2) \<Rightarrow> (res # ress, t2)))"

text \<open>
  Go's monotonic clock never runs backwards. \<open>ordered lo r\<close> says that the readings of
  one call come in program order and not before \<open>lo\<close>; \<open>monotonic lo calls\<close> says so of a
  whole history that starts at \<open>lo\<close>. A call that skips the sweep or returns on line 55
  does not take every reading; a reading it does not take has no effect on the call and
  may be given the value of the one before it.
\<close>

definition ordered :: "time \<Rightarrow> 'k readings \<Rightarrow> bool" where
  "ordered lo r =
     (lo \<le> at_check r
      \<and> (\<forall>val. at_check r \<le> at_scan r val \<and> at_scan r val \<le> at_clean r)
      \<and> at_clean r \<le> at_decide r \<and> at_decide r \<le> at_admit r)"

fun monotonic :: "time \<Rightarrow> 'k call list \<Rightarrow> bool" where
  "monotonic lo [] = True"
| "monotonic lo ((r, v) # calls) = (ordered lo r \<and> monotonic (at_admit r) calls)"

text \<open>The reading the clock has reached when a history that starts at \<open>lo\<close> ends.\<close>

fun clockAfter :: "time \<Rightarrow> 'k call list \<Rightarrow> time" where
  "clockAfter lo [] = lo"
| "clockAfter lo ((r, v) # calls) = clockAfter (at_admit r) calls"

text \<open>For each call of a history, whether the condition of line 44 holds in it.\<close>

fun sweepsDue :: "'k throttler \<Rightarrow> 'k call list \<Rightarrow> bool list" where
  "sweepsDue t [] = []"
| "sweepsDue t ((r, v) # calls) = cleanupDue t r # sweepsDue (snd (Allow t r v)) calls"

text \<open>
  No timestamp of the struct lies after \<open>lo\<close>: every stored time was read from the clock
  at or before \<open>lo\<close>.
\<close>

definition stampsBefore :: "time \<Rightarrow> 'k throttler \<Rightarrow> bool" where
  "stampsBefore lo t =
     (lastClean t \<le> lo \<and> (\<forall>val lastTime. valueMap t val = Some lastTime \<longrightarrow> lastTime \<le> lo))"

text \<open>
  What a call gives when nothing is ever suppressed: true on every value that can be
  hashed.
\<close>

definition verdict :: "'k call \<Rightarrow> panic + bool" where
  "verdict c =
     (case snd c of
        Comparable key \<Rightarrow> Inr True
      | NaN \<Rightarrow> Inr True
      | Unhashable \<Rightarrow> Inl HashOfUnhashableType)"

subsection \<open>A throttler that never evicts\<close>

text \<open>
  The reference the sweep is compared with: \<open>Allow\<close> with lines 44 to 51 left out, so
  that an entry, once written, stays in the table for ever.
\<close>

definition AllowNoSweep ::
  "'k throttler \<Rightarrow> 'k readings \<Rightarrow> 'k iface \<Rightarrow> (panic + bool) \<times> 'k throttler" where
  "AllowNoSweep t r v =
     (case v of
        Unhashable \<Rightarrow> (Inl HashOfUnhashableType, t)
      | NaN \<Rightarrow> (Inr True, admitNaN t r)
      | Comparable key \<Rightarrow>
          if throttled t r key then (Inr False, t)
          else (Inr True, admit t r key))"

fun runNoSweep ::
  "'k throttler \<Rightarrow> 'k call list \<Rightarrow> (panic + bool) list \<times> 'k throttler" where
  "runNoSweep t [] = ([], t)"
| "runNoSweep t ((r, v) # calls) =
     (case AllowNoSweep t r v of
        (res, t1) \<Rightarrow> (case runNoSweep t1 calls of (ress, t2) \<Rightarrow> (res # ress, t2)))"

text \<open>
  How the swept struct \<open>t\<close> relates to the never-evicting \<open>u\<close> at clock reading \<open>lo\<close>:
  the same window, and every key either has the same entry in both, or has none in \<open>t\<close>
  and one in \<open>u\<close> that is older than the window at \<open>lo\<close>.
\<close>

definition behind :: "time \<Rightarrow> 'k throttler \<Rightarrow> 'k throttler \<Rightarrow> bool" where
  "behind lo t u =
     (throttle t = throttle u
      \<and> (\<forall>key. valueMap t key = valueMap u key
            \<or> (valueMap t key = None
               \<and> (\<exists>lastTime. valueMap u key = Some lastTime \<and> lo - lastTime > throttle u))))"

subsection \<open>A concrete throttler\<close>

text \<open>
  A window of 50 and a cleanup interval of 100: the throttler made at 1000 that has
  admitted the key \<open>old\<close> at 1010 and the key \<open>k\<close> at 1100 (lemma \<open>demo_reached\<close>).
\<close>

definition demo :: "string throttler" where
  "demo =
     \<lparr>valueMap = [''k'' \<mapsto> 1100, ''old'' \<mapsto> 1010], nanEntries = [], throttle = 50,
      cleanup = 100, lastClean = 1000\<rparr>"

text \<open>
  A history on a throttler with a window of 200 and a cleanup interval of 10, made at 0:
  \<open>k\<close> at 0, 15 and 30, then \<open>b\<close> at 300, then \<open>k\<close> again at 310.
\<close>

definition demoCalls :: "string call list" where
  "demoCalls =
     [(instant 0, Comparable ''k''), (instant 15, Comparable ''k''),
      (instant 30, Comparable ''k''), (instant 300, Comparable ''b''),
      (instant 310, Comparable ''k'')]"

text \<open>
  A history on a throttler with a window of 50 and a cleanup interval of 10, made at 0:
  a NaN at 0, then the key \<open>x\<close> at 100.
\<close>

definition nanCalls :: "string call list" where
  "nanCalls = [(instant 0, NaN), (instant 100, Comparable ''x'')]"

text \<open>
  A call in which the clock advances while the range loop runs: line 46 reads 55 for
  every entry, and lines 50, 54 and 58 read 56.
\<close>

definition seenK :: "string throttler" where
  \<comment> \<open>A window of 50 and a cleanup interval of 10, made at 0, with \<open>k\<close> admitted at 5.\<close>
  "seenK =
     \<lparr>valueMap = [''k'' \<mapsto> 5], nanEntries = [], throttle = 50, cleanup = 10, lastClean = 0\<rparr>"

definition slowScan :: "string readings" where
  "slowScan =
     \<lparr>at_check = 55, at_scan = (\<lambda>_. 55), at_clean = 56, at_decide = 56, at_admit = 56\<rparr>"

section \<open>Properties\<close>

subsection \<open>The range loop and the fields a call keeps\<close>

text \<open>
  The range loop visits every entry of the table. Whatever the order, and whether or not
  a key comes twice, it leaves under the keys equal to themselves the entries \<open>scan\<close>
  computes one by one; the visits of the other entries change nothing.
\<close>

lemma rangeLoop_pointwise:
  "rangeLoop t r vs m =
     (\<lambda>val. if Comparable val \<in> set vs
            then (case m val of None \<Rightarrow> None
                  | Some lastTime \<Rightarrow> if expired t r val lastTime then None else Some lastTime)
            else m val)"
proof (induction vs arbitrary: m)
  case Nil
  show ?case by simp
next
  case (Cons v vs)
  show ?case
  proof (cases v)
    case (Comparable k)
    then show ?thesis
      by (cases "m k") (auto simp: Cons.IH delete_def fun_eq_iff split: option.splits)
  next
    case NaN
    then show ?thesis by (simp add: Cons.IH delete_def)
  next
    case Unhashable
    then show ?thesis by (simp add: Cons.IH)
  qed
qed

lemma rangeLoop_scan:
  assumes "dom (valueMap t) \<subseteq> {val. Comparable val \<in> set vs}"
  shows "rangeLoop t r vs (valueMap t) = scan t r"
proof
  fix val
  show "rangeLoop t r vs (valueMap t) val = scan t r val"
    using assms by (cases "valueMap t val") (auto simp: rangeLoop_pointwise scan_def)
qed

lemma sweep_fields [simp]:
  "throttle (sweep t r) = throttle t" "cleanup (sweep t r) = cleanup t"
  "nanEntries (sweep t r) = nanEntries t"
  by (simp_all add: sweep_def)

lemma admit_fields [simp]:
  "throttle (admit t r key) = throttle t" "cleanup (admit t r key) = cleanup t"
  "lastClean (admit t r key) = lastClean t"
  "valueMap (admit t r key) = (valueMap t)(key \<mapsto> at_admit r)"
  "nanEntries (admit t r key) = nanEntries t"
  by (simp_all add: admit_def)

lemma admitNaN_fields [simp]:
  "throttle (admitNaN t r) = throttle t" "cleanup (admitNaN t r) = cleanup t"
  "lastClean (admitNaN t r) = lastClean t" "valueMap (admitNaN t r) = valueMap t"
  "nanEntries (admitNaN t r) = nanEntries t @ [at_admit r]"
  by (simp_all add: admitNaN_def)

subsection \<open>The decision\<close>

text \<open>
  C1. A call \<open>Allow(key)\<close> returns false exactly when the table, as the sweep of this call
  leaves it, has an entry for \<open>key\<close> whose age at the reading of line 54 is strictly less
  than the window; the call then leaves the swept struct as it is. In every other case it
  returns true and the struct is the swept one with \<open>key\<close> set to the reading of line 58.
\<close>

theorem Allow_decision:
  "(fst (Allow t r (Comparable key)) = Inr False \<longleftrightarrow>
      (\<exists>lastTime. valueMap (sweep t r) key = Some lastTime
         \<and> at_decide r - lastTime < throttle t))
   \<and> (fst (Allow t r (Comparable key)) = Inr False \<longrightarrow>
        snd (Allow t r (Comparable key)) = sweep t r)
   \<and> (fst (Allow t r (Comparable key)) \<noteq> Inr False \<longrightarrow>
        fst (Allow t r (Comparable key)) = Inr True
        \<and> snd (Allow t r (Comparable key))
            = (sweep t r)\<lparr>valueMap := (valueMap (sweep t r))(key \<mapsto> at_admit r)\<rparr>)"
  by (cases "valueMap (sweep t r) key")
     (simp_all add: Allow_def Let_def throttled_def admit_def Since_def)

theorem Allow_decision_witness:
  "fst (Allow demo (instant 1100) (Comparable ''k'')) = Inr False
   \<and> snd (Allow demo (instant 1100) (Comparable ''k'')) = demo
   \<and> fst (Allow demo (instant 1150) (Comparable ''k'')) = Inr True
   \<and> valueMap (snd (Allow demo (instant 1150) (Comparable ''k''))) ''k'' = Some 1150
   \<and> fst (Allow demo (instant 1100) (Comparable ''new'')) = Inr True
   \<and> valueMap (snd (Allow demo (instant 1100) (Comparable ''new''))) ''new'' = Some 1100"
  using Allow_decision [of demo "instant 1100" "''k''"]
    Allow_decision [of demo "instant 1150" "''k''"]
    Allow_decision [of demo "instant 1100" "''new''"]
  by (simp add: demo_def sweep_def cleanupDue_def scan_def expired_def instant_def Since_def)

subsection \<open>The sweep\<close>

text \<open>
  Among the entries under keys equal to themselves, the sweep is exact. When the time
  since \<open>lastClean\<close>, at the reading of line 44, exceeds the cleanup interval, it removes
  exactly those whose age, at the reading line 46 takes for them, strictly exceeds the
  window, keeps every other one with its timestamp, and sets \<open>lastClean\<close> to the reading
  of line 50, whether or not an entry went. When it does not exceed the interval, the
  sweep leaves the struct as it is. The rest of the call keeps \<open>lastClean\<close> and touches
  no such entry but the one of its own key.
\<close>

lemma sweep_keys:
  "(at_check r - lastClean t > cleanup t \<longrightarrow>
      dom (valueMap (sweep t r))
        = dom (valueMap t)
            - {val. \<exists>lastTime. valueMap t val = Some lastTime
                       \<and> at_scan r val - lastTime > throttle t}
      \<and> (\<forall>val \<in> dom (valueMap (sweep t r)). valueMap (sweep t r) val = valueMap t val)
      \<and> lastClean (sweep t r) = at_clean r)
   \<and> (\<not> at_check r - lastClean t > cleanup t \<longrightarrow> sweep t r = t)
   \<and> lastClean (snd (Allow t r v)) = lastClean (sweep t r)
   \<and> (\<forall>val. v \<noteq> Comparable val \<longrightarrow>
         valueMap (snd (Allow t r v)) val = valueMap (sweep t r) val)"
proof (intro conjI impI allI)
  assume due: "at_check r - lastClean t > cleanup t"
  then have sw: "valueMap (sweep t r) = scan t r"
    by (simp add: sweep_def cleanupDue_def Since_def)
  show "dom (valueMap (sweep t r))
          = dom (valueMap t)
              - {val. \<exists>lastTime. valueMap t val = Some lastTime
                         \<and> at_scan r val - lastTime > throttle t}"
    unfolding sw
    by (auto simp: scan_def expired_def Since_def dom_def split: option.splits if_splits)
  show "\<forall>val \<in> dom (valueMap (sweep t r)). valueMap (sweep t r) val = valueMap t val"
    unfolding sw by (auto simp: scan_def split: option.splits if_splits)
  show "lastClean (sweep t r) = at_clean r"
    using due by (simp add: sweep_def cleanupDue_def Since_def)
next
  assume "\<not> at_check r - lastClean t > cleanup t"
  then show "sweep t r = t"
    by (simp add: sweep_def cleanupDue_def Since_def)
next
  show "lastClean (snd (Allow t r v)) = lastClean (sweep t r)"
    by (cases v) (simp_all add: Allow_def Let_def)
next
  fix val
  assume "v \<noteq> Comparable val"
  then show "valueMap (snd (Allow t r v)) val = valueMap (sweep t r) val"
    by (cases v) (auto simp: Allow_def Let_def)
qed

text \<open>At 1120 the sweep of \<open>demo\<close> is due: it evicts \<open>old\<close> and keeps \<open>k\<close>.\<close>

lemma demo_sweep_1120:
  "sweep demo (instant 1120)
     = \<lparr>valueMap = [''k'' \<mapsto> 1100], nanEntries = [], throttle = 50, cleanup = 100,
        lastClean = 1120\<rparr>"
  by (auto simp: demo_def sweep_def cleanupDue_def scan_def expired_def instant_def Since_def
        fun_eq_iff)

lemma sweep_keys_demo:
  "dom (valueMap (sweep demo (instant 1120))) = {''k''}
   \<and> valueMap (sweep demo (instant 1120)) ''k'' = Some 1100
   \<and> lastClean (sweep demo (instant 1120)) = 1120
   \<and> sweep demo (instant 1100) = demo
   \<and> lastClean (snd (Allow demo (instant 1120) (Comparable ''new''))) = 1120
   \<and> valueMap (snd (Allow demo (instant 1120) (Comparable ''new''))) ''old'' = None"
proof -
  have due: "at_check (instant 1120 :: string readings) - lastClean demo > cleanup demo"
    by (simp add: demo_def instant_def)
  have idle: "\<not> at_check (instant 1100 :: string readings) - lastClean demo > cleanup demo"
    by (simp add: demo_def instant_def)
  note a = sweep_keys [where t = demo and r = "instant 1120" and v = "Comparable ''new''"]
  note b = sweep_keys [where t = demo and r = "instant 1100" and v = "Comparable ''new''"]
  from a due have "lastClean (sweep demo (instant 1120)) = 1120"
    by (simp add: instant_def)
  moreover from b idle have "sweep demo (instant 1100) = demo"
    by blast
  moreover from a have "lastClean (snd (Allow demo (instant 1120) (Comparable ''new'')))
      = lastClean (sweep demo (instant 1120))"
    by blast
  moreover from a have "valueMap (snd (Allow demo (instant 1120) (Comparable ''new''))) ''old''
      = valueMap (sweep demo (instant 1120)) ''old''"
    by simp
  ultimately show ?thesis
    by (simp add: demo_sweep_1120)
qed

text \<open>
  An entry stored under a value that is not equal to itself is out of the sweep's reach:
  no call removes it, and a call with such a value adds one.
\<close>

lemma nanEntries_Allow:
  "nanEntries (snd (Allow t r v))
     = (if v = NaN then nanEntries t @ [at_admit r] else nanEntries t)"
  by (cases v) (simp_all add: Allow_def Let_def)

text \<open>
  C3. The claim: when a sweep runs, exactly the entries older than the window are
  removed. The code, on a throttler with a window of 50 and a cleanup interval of 10
  made at 0: \<open>Allow(NaN)\<close> at 0 returns true and stores an entry; in \<open>Allow(x)\<close> at 100
  the sweep runs and finds that entry 100 old, above the window, but the \<open>delete\<close> of
  line 47 removes nothing, and the entry is still in the table when the call returns.
\<close>

theorem expired_nan_entry_kept:
  "monotonic 0 nanCalls
   \<and> fst (run (NewThrottler 50 10 0) nanCalls) = [Inr True, Inr True]
   \<and> sweepsDue (NewThrottler 50 10 0) nanCalls = [False, True]
   \<and> nanEntries (snd (run (NewThrottler 50 10 0) nanCalls)) = [0]
   \<and> Since 100 0 > throttle (snd (run (NewThrottler 50 10 0) nanCalls))"
  by (simp add: nanCalls_def ordered_def NewThrottler_def Allow_def Let_def sweep_def
        cleanupDue_def admitNaN_def throttled_def admit_def scan_def instant_def Since_def)

subsection \<open>An entry exactly as old as the window\<close>

text \<open>
  C4. An entry whose age equals the window is neither swept nor suppressed: the scan of
  line 46 keeps it (eviction asks for an age strictly above the window), and \<open>Allow\<close> for
  its key returns true (suppression asks for an age strictly below the window).
\<close>

theorem boundary_not_throttled:
  assumes "valueMap t key = Some lastTime"
    and "at_scan r key - lastTime = throttle t"
    and "at_decide r - lastTime = throttle t"
  shows "scan t r key = Some lastTime
         \<and> valueMap (sweep t r) key = Some lastTime
         \<and> fst (Allow t r (Comparable key)) = Inr True"
proof -
  have sc: "scan t r key = Some lastTime"
    using assms by (simp add: scan_def expired_def Since_def)
  then have sw: "valueMap (sweep t r) key = Some lastTime"
    using assms(1) by (simp add: sweep_def)
  have "\<not> throttled (sweep t r) r key"
    using sw assms(3) by (simp add: throttled_def Since_def)
  then have "fst (Allow t r (Comparable key)) = Inr True"
    by (simp add: Allow_def Let_def)
  with sc sw show ?thesis by simp
qed

theorem boundary_not_throttled_witness:
  "cleanupDue demo (instant 1150)
   \<and> valueMap demo ''k'' = Some 1100
   \<and> at_scan (instant 1150 :: string readings) ''k'' - 1100 = throttle demo
   \<and> scan demo (instant 1150) ''k'' = Some 1100
   \<and> valueMap (sweep demo (instant 1150)) ''k'' = Some 1100
   \<and> fst (Allow demo (instant 1150) (Comparable ''k'')) = Inr True"
proof -
  have h1: "valueMap demo ''k'' = Some 1100"
    by (simp add: demo_def)
  have h2: "at_scan (instant 1150 :: string readings) ''k'' - 1100 = throttle demo"
    by (simp add: demo_def instant_def)
  have h3: "at_decide (instant 1150 :: string readings) - 1100 = throttle demo"
    by (simp add: demo_def instant_def)
  have "cleanupDue demo (instant 1150)"
    by (simp add: cleanupDue_def demo_def instant_def Since_def)
  with boundary_not_throttled [OF h1 h2 h3] h1 h2 show ?thesis
    by simp
qed

subsection \<open>The table after a sweep\<close>

text \<open>
  C10, as the code has it. When the sweep has run, every entry still in the table under a
  key equal to itself has an age of at most the window as the scan observed it, that is
  at the reading line 46 took for it. At the reading of line 50, when the scan has ended,
  the entry is older than the window by no more than the time the clock has advanced
  since its reading of line 46. In a call during which the clock stands still, the table
  then holds no such entry older than the window.
\<close>

theorem swept_entries_young:
  "(at_check r - lastClean t > cleanup t \<longrightarrow>
      (\<forall>val lastTime. valueMap (sweep t r) val = Some lastTime \<longrightarrow>
         at_scan r val - lastTime \<le> throttle t
         \<and> at_clean r - lastTime \<le> throttle t + (at_clean r - at_scan r val)))
   \<and> (now - lastClean t > cleanup t \<longrightarrow>
        (\<forall>val lastTime. valueMap (sweep t (instant now)) val = Some lastTime \<longrightarrow>
           now - lastTime \<le> throttle t))"
  by (auto simp: sweep_def cleanupDue_def scan_def expired_def instant_def Since_def
        split: option.splits if_splits)

text \<open>The throttler \<open>seenK\<close> is the one made at 0 that has admitted \<open>k\<close> at 5.\<close>

lemma seenK_reached:
  "run (NewThrottler 50 10 0) [(instant 5, Comparable ''k'')] = ([Inr True], seenK)"
  by (simp add: seenK_def NewThrottler_def Allow_def Let_def sweep_def cleanupDue_def
        throttled_def admit_def instant_def Since_def)

lemma seenK_slowScan:
  "cleanupDue seenK slowScan" "valueMap (sweep seenK slowScan) ''k'' = Some 5"
  by (simp_all add: seenK_def slowScan_def sweep_def cleanupDue_def scan_def expired_def
        Since_def)

text \<open>
  The table can hold an entry older than the window when the scan ends. In a call on
  \<open>seenK\<close> with the readings \<open>slowScan\<close> the sweep runs; line 46 finds \<open>k\<close> 50 old, which
  is not above the window of 50, and keeps it; at the reading of line 50 the entry is 51
  old.
\<close>

theorem aged_while_scanning:
  "run (NewThrottler 50 10 0) [(instant 5, Comparable ''k'')] = ([Inr True], seenK)
   \<and> monotonic 0 [(instant 5, Comparable ''k''), (slowScan, Comparable ''b'')]
   \<and> cleanupDue seenK slowScan
   \<and> valueMap (sweep seenK slowScan) ''k'' = Some 5
   \<and> Since (at_clean slowScan) 5 > throttle seenK"
proof -
  have mono: "monotonic 0 [(instant 5, Comparable ''k''), (slowScan, Comparable ''b'')]"
    by (simp add: ordered_def instant_def slowScan_def)
  have age: "Since (at_clean slowScan) 5 > throttle seenK"
    by (simp add: slowScan_def seenK_def Since_def)
  show ?thesis
    by (intro conjI seenK_reached mono seenK_slowScan age)
qed

theorem swept_entries_young_witness:
  "at_check slowScan - lastClean seenK > cleanup seenK
   \<and> valueMap (sweep seenK slowScan) ''k'' = Some 5
   \<and> at_scan slowScan ''k'' - 5 \<le> throttle seenK
   \<and> at_clean slowScan - 5 \<le> throttle seenK + (at_clean slowScan - at_scan slowScan ''k'')
   \<and> (1120::int) - lastClean demo > cleanup demo
   \<and> valueMap (sweep demo (instant 1120)) ''k'' = Some 1100
   \<and> valueMap (sweep demo (instant 1120)) ''old'' = None
   \<and> (1120::int) - 1100 \<le> throttle demo"
proof -
  note th = swept_entries_young [where t = seenK and r = slowScan]
  note th' = swept_entries_young [where t = demo and now = 1120]
  have due: "at_check slowScan - lastClean seenK > cleanup seenK"
    by (simp add: slowScan_def seenK_def)
  have k: "valueMap (sweep seenK slowScan) ''k'' = Some 5"
    by (rule seenK_slowScan)
  from th due k
  have b: "at_scan slowScan ''k'' - 5 \<le> throttle seenK
     \<and> at_clean slowScan - 5 \<le> throttle seenK + (at_clean slowScan - at_scan slowScan ''k'')"
    by blast
  have due': "(1120::int) - lastClean demo > cleanup demo"
    by (simp add: demo_def)
  have k': "valueMap (sweep demo (instant 1120)) ''k'' = Some 1100"
    by (simp add: demo_sweep_1120)
  have old: "valueMap (sweep demo (instant 1120)) ''old'' = None"
    by (simp add: demo_sweep_1120)
  from th' due' k' have b': "(1120::int) - 1100 \<le> throttle demo"
    by blast
  from due k b due' k' old b' show ?thesis
    by blast
qed

subsection \<open>Histories under a monotonic clock\<close>

lemma Allow_fields [simp]:
  "throttle (snd (Allow t r v)) = throttle t" "cleanup (snd (Allow t r v)) = cleanup t"
  by (cases v; simp add: Allow_def Let_def)+

lemma run_Cons [simp]:
  "run t ((r, v) # calls) =
     (fst (Allow t r v) # fst (run (snd (Allow t r v)) calls),
      snd (run (snd (Allow t r v)) calls))"
  by (simp split: prod.splits)

lemma runNoSweep_Cons [simp]:
  "runNoSweep t ((r, v) # calls) =
     (fst (AllowNoSweep t r v) # fst (runNoSweep (snd (AllowNoSweep t r v)) calls),
      snd (runNoSweep (snd (AllowNoSweep t r v)) calls))"
  by (simp split: prod.splits)

declare run.simps(2) [simp del] runNoSweep.simps(2) [simp del]

lemma run_throttle [simp]: "throttle (snd (run t calls)) = throttle t"
  by (induction calls arbitrary: t) auto

lemma run_cleanup [simp]: "cleanup (snd (run t calls)) = cleanup t"
  by (induction calls arbitrary: t) auto

lemma monotonic_append:
  "monotonic lo (xs @ ys) = (monotonic lo xs \<and> monotonic (clockAfter lo xs) ys)"
  by (induction lo xs rule: monotonic.induct) simp_all

lemma ordered_chain:
  assumes "ordered lo r"
  shows "lo \<le> at_check r" "at_check r \<le> at_clean r" "at_clean r \<le> at_decide r"
    "at_decide r \<le> at_admit r" "lo \<le> at_scan r val" "at_scan r val \<le> at_decide r"
proof -
  have c: "lo \<le> at_check r" "at_check r \<le> at_scan r val" "at_scan r val \<le> at_clean r"
    "at_clean r \<le> at_decide r" "at_decide r \<le> at_admit r"
    using assms by (simp_all add: ordered_def)
  show "lo \<le> at_check r" "at_check r \<le> at_clean r" "at_clean r \<le> at_decide r"
    "at_decide r \<le> at_admit r" "lo \<le> at_scan r val" "at_scan r val \<le> at_decide r"
    using c by linarith+
qed

lemma sweep_entry:
  "valueMap (sweep t r) val = Some lastTime \<Longrightarrow> valueMap t val = Some lastTime"
  by (auto simp: sweep_def scan_def split: if_splits option.splits)

lemma stampsBefore_sweep:
  assumes "stampsBefore lo t" "ordered lo r"
  shows "stampsBefore (at_decide r) (sweep t r)"
proof -
  have le: "lo \<le> at_decide r" "at_clean r \<le> at_decide r"
    using ordered_chain(1-3) [OF assms(2)] by linarith+
  have "lastClean (sweep t r) \<le> at_decide r"
    using assms(1) le by (auto simp: sweep_def stampsBefore_def)
  moreover have "lastTime \<le> at_decide r" if "valueMap (sweep t r) val = Some lastTime"
    for val lastTime
    using sweep_entry [OF that] assms(1) le by (force simp: stampsBefore_def)
  ultimately show ?thesis by (simp add: stampsBefore_def)
qed

lemma stampsBefore_Allow:
  assumes "stampsBefore lo t" "ordered lo r"
  shows "stampsBefore (at_admit r) (snd (Allow t r v))"
proof -
  have s: "stampsBefore (at_decide r) (sweep t r)"
    by (rule stampsBefore_sweep [OF assms])
  have le: "at_decide r \<le> at_admit r"
    by (rule ordered_chain(4) [OF assms(2)])
  from s le have s': "stampsBefore (at_admit r) (sweep t r)"
    by (force simp: stampsBefore_def)
  show ?thesis
  proof (cases v)
    case Unhashable
    with s' show ?thesis by (simp add: Allow_def Let_def)
  next
    case NaN
    with s' show ?thesis by (simp add: Allow_def Let_def stampsBefore_def)
  next
    case (Comparable key)
    with s' show ?thesis
      by (auto simp: Allow_def Let_def stampsBefore_def)
  qed
qed

lemma stampsBefore_run:
  "monotonic lo calls \<Longrightarrow> stampsBefore lo t \<Longrightarrow>
     stampsBefore (clockAfter lo calls) (snd (run t calls))"
proof (induction calls arbitrary: lo t)
  case Nil
  then show ?case by simp
next
  case (Cons c calls)
  obtain r v where c: "c = (r, v)" by (cases c)
  from Cons.prems c have o: "ordered lo r" and m: "monotonic (at_admit r) calls"
    by simp_all
  have "stampsBefore (at_admit r) (snd (Allow t r v))"
    by (rule stampsBefore_Allow [OF Cons.prems(2) o])
  from Cons.IH [OF m this] show ?case
    by (simp add: c)
qed

lemma stampsBefore_New: "stampsBefore now (NewThrottler thr cln now)"
  by (simp add: stampsBefore_def NewThrottler_def)

lemma demo_reached:
  "run (NewThrottler 50 100 1000)
       [(instant 1010, Comparable ''old''), (instant 1100, Comparable ''k'')]
     = ([Inr True, Inr True], demo)"
  by (simp add: demo_def NewThrottler_def Allow_def Let_def sweep_def cleanupDue_def
        throttled_def admit_def instant_def Since_def fun_upd_twist)

subsection \<open>The first call for a key\<close>

lemma dom_sweep: "dom (valueMap (sweep t r)) \<subseteq> dom (valueMap t)"
  using sweep_entry [of t r] by (auto simp: dom_def)

lemma dom_Allow:
  "dom (valueMap (snd (Allow t r v))) \<subseteq> dom (valueMap t) \<union> {key. v = Comparable key}"
  using dom_sweep [of t r] by (cases v) (auto simp: Allow_def Let_def split: if_splits)

lemma dom_run:
  "dom (valueMap (snd (run t calls)))
     \<subseteq> dom (valueMap t) \<union> {key. Comparable key \<in> snd ` set calls}"
proof (induction calls arbitrary: t)
  case Nil
  show ?case by simp
next
  case (Cons c calls)
  obtain r v where c: "c = (r, v)" by (cases c)
  show ?case
    using Cons.IH [of "snd (Allow t r v)"] dom_Allow [of t r v]
    by (auto simp: c)
qed

lemma absent_allowed:
  assumes "valueMap t key = None"
  shows "fst (Allow t r (Comparable key)) = Inr True"
proof -
  have "valueMap (sweep t r) key = None"
    using assms dom_sweep [of t r] by (auto simp: dom_def)
  then show ?thesis
    by (simp add: Allow_def Let_def throttled_def)
qed

text \<open>
  C2. After any history of calls from \<open>NewThrottler\<close> in which \<open>key\<close> was never passed,
  \<open>Allow(key)\<close> returns true, whatever the clock readings. In particular \<open>Allow(a)\<close> and
  then \<open>Allow(b)\<close>, for distinct keys on a new throttler, both return true, for every
  window and cleanup interval.
\<close>

theorem fresh_key_allowed:
  "(Comparable key \<notin> snd ` set calls \<longrightarrow>
      fst (Allow (snd (run (NewThrottler thr cln now) calls)) r (Comparable key)) = Inr True)
   \<and> (a \<noteq> b \<longrightarrow>
        fst (run (NewThrottler thr cln now) [(r1, Comparable a), (r2, Comparable b)])
          = [Inr True, Inr True])"
proof (intro conjI impI)
  assume fresh: "Comparable key \<notin> snd ` set calls"
  have "key \<notin> dom (valueMap (snd (run (NewThrottler thr cln now) calls)))"
    using dom_run [of "NewThrottler thr cln now" calls] fresh
    by (auto simp: NewThrottler_def)
  then show "fst (Allow (snd (run (NewThrottler thr cln now) calls)) r (Comparable key))
      = Inr True"
    by (intro absent_allowed) (simp add: dom_def)
next
  assume ab: "a \<noteq> b"
  let ?t0 = "NewThrottler thr cln now :: 'b throttler"
  have 1: "fst (Allow ?t0 r1 (Comparable a)) = Inr True"
    by (rule absent_allowed) (simp add: NewThrottler_def)
  have "dom (valueMap (snd (Allow ?t0 r1 (Comparable a)))) \<subseteq> {a}"
    using dom_Allow [of ?t0 r1 "Comparable a"] by (auto simp: NewThrottler_def)
  with ab have "valueMap (snd (Allow ?t0 r1 (Comparable a))) b = None"
    by (auto simp: dom_def)
  then have 2: "fst (Allow (snd (Allow ?t0 r1 (Comparable a))) r2 (Comparable b)) = Inr True"
    by (rule absent_allowed)
  from 1 2 show "fst (run ?t0 [(r1, Comparable a), (r2, Comparable b)]) = [Inr True, Inr True]"
    by simp
qed

theorem fresh_key_allowed_witness:
  "Comparable ''b''
      \<notin> snd ` set [(instant 5 :: string readings, Comparable ''a''),
                   (instant 6, Comparable ''a'')]
   \<and> fst (run (NewThrottler 50 100 0)
            [(instant 5, Comparable ''a''), (instant 6, Comparable ''a'')])
       = [Inr True, Inr False]
   \<and> fst (Allow (snd (run (NewThrottler 50 100 0)
                        [(instant 5, Comparable ''a''), (instant 6, Comparable ''a'')]))
            (instant 7) (Comparable ''b'')) = Inr True
   \<and> fst (run (NewThrottler 50 100 0)
            [(instant 5, Comparable ''a''), (instant 5, Comparable ''b'')])
       = [Inr True, Inr True]"
proof -
  have fresh: "Comparable ''b''
      \<notin> snd ` set [(instant 5 :: string readings, Comparable ''a''),
                   (instant 6, Comparable ''a'')]"
    by simp
  have ab: "''a'' \<noteq> ''b''" by simp
  note th = fresh_key_allowed [where key = "''b''" and thr = 50 and cln = 100 and now = 0
      and calls = "[(instant 5, Comparable ''a''), (instant 6, Comparable ''a'')]"
      and r = "instant 7" and a = "''a''" and b = "''b''" and ?r1.0 = "instant 5"
      and ?r2.0 = "instant 5"]
  have hist: "fst (run (NewThrottler 50 100 0)
            [(instant 5, Comparable ''a''), (instant 6, Comparable ''a'')])
       = [Inr True, Inr False]"
    by (simp add: NewThrottler_def Allow_def Let_def sweep_def cleanupDue_def throttled_def
          admit_def instant_def Since_def)
  note p1 = th [THEN conjunct1, THEN mp, OF fresh]
  note p2 = th [THEN conjunct2, THEN mp, OF ab]
  show ?thesis
    by (intro conjI fresh hist p1 p2)
qed

subsection \<open>Timestamps never decrease\<close>

text \<open>
  C7. In every history from \<open>NewThrottler\<close> under the monotonic clock, a call \<open>Allow(key)\<close>
  that returns true overwrites the entry of \<open>key\<close> with the reading of line 58, and that
  reading is not before the timestamp the entry held when the call began: the stored
  timestamp of a key never decreases from one allowed call to the next.
\<close>

theorem timestamps_nondecreasing:
  assumes "monotonic now (calls @ [(r, Comparable key)])"
    and "valueMap (snd (run (NewThrottler thr cln now) calls)) key = Some old"
    and "fst (Allow (snd (run (NewThrottler thr cln now) calls)) r (Comparable key)) = Inr True"
  shows "valueMap (snd (Allow (snd (run (NewThrottler thr cln now) calls)) r (Comparable key)))
           key = Some (at_admit r)
         \<and> old \<le> at_admit r"
proof -
  let ?t = "snd (run (NewThrottler thr cln now) calls)"
  from assms(1) have m: "monotonic now calls" and o: "ordered (clockAfter now calls) r"
    by (simp_all add: monotonic_append)
  have "stampsBefore (clockAfter now calls) ?t"
    by (rule stampsBefore_run [OF m stampsBefore_New])
  with assms(2) have "old \<le> clockAfter now calls"
    by (simp add: stampsBefore_def)
  also have "\<dots> \<le> at_admit r"
    using ordered_chain(1-4) [OF o] by linarith
  finally have le: "old \<le> at_admit r" .
  have "\<not> throttled (sweep ?t r) r key"
    using assms(3) by (auto simp: Allow_def Let_def split: if_splits)
  then have "valueMap (snd (Allow ?t r (Comparable key))) key = Some (at_admit r)"
    by (simp add: Allow_def Let_def)
  with le show ?thesis by simp
qed

text \<open>A throttler made at 0 that has admitted \<open>a\<close> at 5.\<close>

lemma demo_history:
  "run (NewThrottler 50 100 0) [(instant 5, Comparable ''a'')]
     = ([Inr True],
        \<lparr>valueMap = [''a'' \<mapsto> 5], nanEntries = [], throttle = 50, cleanup = 100,
         lastClean = 0\<rparr>)"
  by (simp add: NewThrottler_def Allow_def Let_def sweep_def cleanupDue_def throttled_def
        admit_def instant_def Since_def)

theorem timestamps_nondecreasing_witness:
  "monotonic 0 [(instant 5, Comparable ''a''), (instant 60, Comparable ''a'')]
   \<and> valueMap (snd (run (NewThrottler 50 100 0) [(instant 5, Comparable ''a'')])) ''a''
       = Some 5
   \<and> fst (Allow (snd (run (NewThrottler 50 100 0) [(instant 5, Comparable ''a'')]))
            (instant 60) (Comparable ''a'')) = Inr True
   \<and> valueMap (snd (Allow (snd (run (NewThrottler 50 100 0) [(instant 5, Comparable ''a'')]))
                      (instant 60) (Comparable ''a''))) ''a'' = Some 60
   \<and> (5::int) \<le> 60"
proof -
  have m: "monotonic 0 ([(instant 5, Comparable ''a'')] @ [(instant 60, Comparable ''a'')])"
    by (simp add: ordered_def instant_def)
  have e: "valueMap (snd (run (NewThrottler 50 100 0) [(instant 5, Comparable ''a'')])) ''a''
       = Some 5"
    by (simp only: demo_history) simp
  have a: "fst (Allow (snd (run (NewThrottler 50 100 0) [(instant 5, Comparable ''a'')]))
            (instant 60) (Comparable ''a'')) = Inr True"
    by (simp only: demo_history)
       (simp add: Allow_def Let_def sweep_def cleanupDue_def throttled_def instant_def Since_def)
  note th = timestamps_nondecreasing [OF m e a]
  have "at_admit (instant 60 :: string readings) = 60"
    by (simp add: instant_def)
  with th m e a show ?thesis by simp
qed

subsection \<open>Zero and negative durations\<close>

lemma no_window_allows:
  assumes "throttle t \<le> 0" "stampsBefore lo t" "ordered lo r"
  shows "fst (Allow t r (Comparable key)) = Inr True"
proof -
  have s: "stampsBefore (at_decide r) (sweep t r)"
    by (rule stampsBefore_sweep [OF assms(2,3)])
  have "\<not> throttled (sweep t r) r key"
  proof (cases "valueMap (sweep t r) key")
    case None
    then show ?thesis by (simp add: throttled_def)
  next
    case (Some lastTime)
    with s have "lastTime \<le> at_decide r" by (simp add: stampsBefore_def)
    with assms(1) Some show ?thesis by (simp add: throttled_def Since_def)
  qed
  then show ?thesis by (simp add: Allow_def Let_def)
qed

lemma no_window_run:
  "throttle t \<le> 0 \<Longrightarrow> stampsBefore lo t \<Longrightarrow> monotonic lo calls \<Longrightarrow>
     fst (run t calls) = map verdict calls"
proof (induction calls arbitrary: lo t)
  case Nil
  show ?case by simp
next
  case (Cons c calls)
  obtain r v where c: "c = (r, v)" by (cases c)
  from Cons.prems c have o: "ordered lo r" and m: "monotonic (at_admit r) calls"
    by simp_all
  have hd: "fst (Allow t r v) = verdict (r, v)"
  proof (cases v)
    case (Comparable key)
    with no_window_allows [OF Cons.prems(1,2) o] show ?thesis by (simp add: verdict_def)
  next
    case NaN
    then show ?thesis by (simp add: verdict_def Allow_def Let_def)
  next
    case Unhashable
    then show ?thesis by (simp add: verdict_def Allow_def Let_def)
  qed
  have "stampsBefore (at_admit r) (snd (Allow t r v))"
    by (rule stampsBefore_Allow [OF Cons.prems(2) o])
  from Cons.IH [OF _ this m] Cons.prems(1) hd show ?case
    by (simp add: c)
qed

lemma negative_cleanup_due:
  assumes "cleanup t < 0" "stampsBefore lo t" "ordered lo r"
  shows "cleanupDue t r"
  using assms ordered_chain(1) [OF assms(3)]
  by (simp add: cleanupDue_def Since_def stampsBefore_def)

lemma negative_cleanup_run:
  "cleanup t < 0 \<Longrightarrow> stampsBefore lo t \<Longrightarrow> monotonic lo calls \<Longrightarrow>
     sweepsDue t calls = map (\<lambda>_. True) calls"
proof (induction calls arbitrary: lo t)
  case Nil
  show ?case by simp
next
  case (Cons c calls)
  obtain r v where c: "c = (r, v)" by (cases c)
  from Cons.prems c have o: "ordered lo r" and m: "monotonic (at_admit r) calls"
    by simp_all
  have "stampsBefore (at_admit r) (snd (Allow t r v))"
    by (rule stampsBefore_Allow [OF Cons.prems(2) o])
  from Cons.IH [OF _ this m] Cons.prems(1) negative_cleanup_due [OF Cons.prems(1,2) o]
  show ?case by (simp add: c)
qed

text \<open>
  C6, as the code has it. \<open>NewThrottler\<close> takes any two durations. With a window of zero
  or less, every call on a key returns true, in every history under the monotonic clock.
  With a cleanup interval below zero, the sweep runs in every call of such a history.
  With a cleanup interval of exactly zero, the sweep runs in the calls whose reading on
  line 44 is strictly after \<open>lastClean\<close>, and in no other.
\<close>

theorem degenerate_durations:
  "(thr \<le> 0 \<and> monotonic now calls \<longrightarrow>
      fst (run (NewThrottler thr cln now) calls) = map verdict calls)
   \<and> (cln < 0 \<and> monotonic now calls \<longrightarrow>
        sweepsDue (NewThrottler thr cln now) calls = map (\<lambda>_. True) calls)
   \<and> (cleanup t = 0 \<longrightarrow> cleanupDue t r = (lastClean t < at_check r))"
proof (intro conjI impI)
  assume "thr \<le> 0 \<and> monotonic now calls"
  then show "fst (run (NewThrottler thr cln now) calls) = map verdict calls"
    by (intro no_window_run [OF _ stampsBefore_New]) (simp_all add: NewThrottler_def)
next
  assume "cln < 0 \<and> monotonic now calls"
  then show "sweepsDue (NewThrottler thr cln now) calls = map (\<lambda>_. True) calls"
    by (intro negative_cleanup_run [OF _ stampsBefore_New]) (simp_all add: NewThrottler_def)
next
  assume "cleanup t = 0"
  then show "cleanupDue t r = (lastClean t < at_check r)"
    by (simp add: cleanupDue_def Since_def)
qed

text \<open>
  With a cleanup interval of zero, a call whose reading on line 44 is the very reading
  \<open>lastClean\<close> holds does not sweep: the elapsed time is zero, which is not above zero.
  Here the throttler is made at 7 and called at 7.
\<close>

theorem zero_cleanup_counterexample:
  "cleanup (NewThrottler 50 0 7 :: string throttler) \<le> 0
   \<and> monotonic 7 [(instant 7, Comparable ''a'')]
   \<and> sweepsDue (NewThrottler 50 0 7) [(instant 7, Comparable ''a'')] = [False]"
  by (simp add: NewThrottler_def cleanupDue_def ordered_def instant_def Since_def)

theorem degenerate_durations_witness:
  "monotonic 0 [(instant 5, Comparable ''a''), (instant 5, Comparable ''a'')]
   \<and> fst (run (NewThrottler 0 (- 1) 0)
            [(instant 5, Comparable ''a''), (instant 5, Comparable ''a'')])
       = [Inr True, Inr True]
   \<and> sweepsDue (NewThrottler 0 (- 1) 0)
        [(instant 5, Comparable ''a''), (instant 5, Comparable ''a'')] = [True, True]
   \<and> cleanup (NewThrottler 50 0 7 :: string throttler) = 0
   \<and> \<not> cleanupDue (NewThrottler 50 0 7 :: string throttler) (instant 7)
   \<and> cleanupDue (NewThrottler 50 0 7 :: string throttler) (instant 8)"
proof -
  let ?calls = "[(instant 5, Comparable ''a''), (instant 5, Comparable ''a'')] :: string call list"
  have m: "monotonic 0 ?calls"
    by (simp add: ordered_def instant_def)
  have z: "cleanup (NewThrottler 50 0 7 :: string throttler) = 0"
    by (simp add: NewThrottler_def)
  note a = degenerate_durations [where thr = 0 and cln = "- 1" and now = 0 and calls = ?calls
      and t = "NewThrottler 50 0 7 :: string throttler" and r = "instant 7"]
  note b = degenerate_durations [where thr = 0 and cln = "- 1" and now = 0 and calls = ?calls
      and t = "NewThrottler 50 0 7 :: string throttler" and r = "instant 8"]
  from a m have e1: "fst (run (NewThrottler 0 (- 1) 0) ?calls) = map verdict ?calls"
    by simp
  from a m have e2: "sweepsDue (NewThrottler 0 (- 1) 0) ?calls = map (\<lambda>_. True) ?calls"
    by simp
  from a z have e3: "cleanupDue (NewThrottler 50 0 7 :: string throttler) (instant 7)
      = (lastClean (NewThrottler 50 0 7 :: string throttler) < at_check (instant 7 :: string readings))"
    by blast
  from b z have e4: "cleanupDue (NewThrottler 50 0 7 :: string throttler) (instant 8)
      = (lastClean (NewThrottler 50 0 7 :: string throttler) < at_check (instant 8 :: string readings))"
    by blast
  have e5: "lastClean (NewThrottler 50 0 7 :: string throttler) = 7"
    "at_check (instant 7 :: string readings) = 7" "at_check (instant 8 :: string readings) = 8"
    by (simp_all add: NewThrottler_def instant_def)
  have f1: "fst (run (NewThrottler 0 (- 1) 0) ?calls) = [Inr True, Inr True]"
    unfolding e1 by (simp add: verdict_def)
  have f2: "sweepsDue (NewThrottler 0 (- 1) 0) ?calls = [True, True]"
    unfolding e2 by simp
  have f3: "\<not> cleanupDue (NewThrottler 50 0 7 :: string throttler) (instant 7)"
    unfolding e3 e5 by simp
  have f4: "cleanupDue (NewThrottler 50 0 7 :: string throttler) (instant 8)"
    unfolding e4 e5 by simp
  show ?thesis
    by (intro conjI m f1 f2 z f3 f4)
qed

subsection \<open>Eviction does not show in the results\<close>

lemma behindD:
  assumes "behind lo t u"
  shows "throttle t = throttle u"
    and "valueMap t key = valueMap u key
         \<or> (valueMap t key = None
            \<and> (\<exists>lastTime. valueMap u key = Some lastTime \<and> lo - lastTime > throttle u))"
  using assms by (simp_all add: behind_def)

lemma sweep_cases:
  "valueMap (sweep t r) key = valueMap t key
   \<or> (valueMap (sweep t r) key = None
      \<and> (\<exists>lastTime. valueMap t key = Some lastTime
            \<and> at_scan r key - lastTime > throttle t))"
  by (cases "valueMap t key")
     (simp_all add: sweep_def scan_def expired_def Since_def)

lemma behind_sweep:
  assumes b: "behind lo t u" and o: "ordered lo r"
  shows "behind (at_decide r) (sweep t r) u"
proof -
  have thr: "throttle t = throttle u" by (rule behindD(1) [OF b])
  have "valueMap (sweep t r) key = valueMap u key
        \<or> (valueMap (sweep t r) key = None
           \<and> (\<exists>lastTime. valueMap u key = Some lastTime
                 \<and> at_decide r - lastTime > throttle u))" for key
  proof -
    have le: "lo \<le> at_decide r" "at_scan r key \<le> at_decide r"
      using ordered_chain(1-3) [OF o] ordered_chain(6) [OF o, of key] by linarith+
    from behindD(2) [OF b, of key] show ?thesis
    proof
      assume same: "valueMap t key = valueMap u key"
      from sweep_cases [of t r key] show ?thesis
      proof
        assume "valueMap (sweep t r) key = valueMap t key"
        with same show ?thesis by simp
      next
        assume "valueMap (sweep t r) key = None
          \<and> (\<exists>lastTime. valueMap t key = Some lastTime
                \<and> at_scan r key - lastTime > throttle t)"
        then obtain lastTime where n: "valueMap (sweep t r) key = None"
          and e: "valueMap t key = Some lastTime"
          and old: "at_scan r key - lastTime > throttle t"
          by blast
        from old le(2) thr have "at_decide r - lastTime > throttle u" by linarith
        with n e same show ?thesis by simp
      qed
    next
      assume "valueMap t key = None
        \<and> (\<exists>lastTime. valueMap u key = Some lastTime \<and> lo - lastTime > throttle u)"
      then obtain lastTime where n: "valueMap t key = None"
        and e: "valueMap u key = Some lastTime" and old: "lo - lastTime > throttle u"
        by blast
      from n sweep_cases [of t r key] have "valueMap (sweep t r) key = None" by auto
      moreover from old le(1) have "at_decide r - lastTime > throttle u" by linarith
      ultimately show ?thesis using e by simp
    qed
  qed
  with thr show ?thesis by (simp add: behind_def)
qed

lemma behind_throttled:
  assumes "behind (at_decide r) s u"
  shows "throttled s r key = throttled u r key"
  using behindD(1) [OF assms] behindD(2) [OF assms, of key]
  by (auto simp: throttled_def Since_def split: option.splits)

lemma behind_later:
  assumes b: "behind lo s u" and le: "lo \<le> lo'"
  shows "behind lo' s u"
proof -
  have "valueMap s key = valueMap u key
        \<or> (valueMap s key = None
           \<and> (\<exists>lastTime. valueMap u key = Some lastTime \<and> lo' - lastTime > throttle u))"
    for key
    using behindD(2) [OF b, of key] le by force
  with behindD(1) [OF b] show ?thesis by (simp add: behind_def)
qed

lemma behind_admit:
  assumes "behind lo s u"
  shows "behind lo (admit s r key) (admit u r key)"
  using assms by (simp add: behind_def)

lemma behind_admitNaN:
  assumes "behind lo s u"
  shows "behind lo (admitNaN s r) (admitNaN u r)"
  using assms by (simp add: behind_def)

lemma behind_Allow:
  assumes b: "behind lo t u" and o: "ordered lo r"
  shows "fst (Allow t r v) = fst (AllowNoSweep u r v)"
    and "behind (at_admit r) (snd (Allow t r v)) (snd (AllowNoSweep u r v))"
proof -
  have s: "behind (at_decide r) (sweep t r) u"
    by (rule behind_sweep [OF b o])
  have s': "behind (at_admit r) (sweep t r) u"
    by (rule behind_later [OF s ordered_chain(4) [OF o]])
  show "fst (Allow t r v) = fst (AllowNoSweep u r v)"
    by (cases v) (simp_all add: Allow_def AllowNoSweep_def Let_def behind_throttled [OF s])
  show "behind (at_admit r) (snd (Allow t r v)) (snd (AllowNoSweep u r v))"
    by (cases v)
       (simp_all add: Allow_def AllowNoSweep_def Let_def behind_throttled [OF s] s'
          behind_admit [OF s'] behind_admitNaN [OF s'])
qed

lemma behind_run:
  "behind lo t u \<Longrightarrow> monotonic lo calls \<Longrightarrow> fst (run t calls) = fst (runNoSweep u calls)"
proof (induction calls arbitrary: lo t u)
  case Nil
  show ?case by simp
next
  case (Cons c calls)
  obtain r v where c: "c = (r, v)" by (cases c)
  from Cons.prems c have o: "ordered lo r" and m: "monotonic (at_admit r) calls"
    by simp_all
  note step = behind_Allow [OF Cons.prems(1) o, of v]
  from Cons.IH [OF step(2) m] step(1) show ?case
    by (simp add: c)
qed

lemma behind_refl: "behind lo t t"
  by (simp add: behind_def)

text \<open>
  C5, as the code has it. When a sweep runs, which takes a time since \<open>lastClean\<close>
  strictly above the cleanup interval, and finds the entry of \<open>key\<close> older than the
  window, the entry leaves the table, and a later \<open>Allow(key)\<close> returns true as it does
  for a key never seen. For every history from \<open>NewThrottler\<close> under the monotonic clock,
  the results of \<open>Allow\<close> are the results of the throttler that never evicts, call by
  call.
\<close>

theorem eviction_invisible:
  "(at_check r - lastClean t > cleanup t \<and> valueMap t key = Some lastTime
      \<and> at_scan r key - lastTime > throttle t \<and> v \<noteq> Comparable key \<longrightarrow>
        valueMap (snd (Allow t r v)) key = None
        \<and> fst (Allow (snd (Allow t r v)) r' (Comparable key)) = Inr True)
   \<and> (monotonic now calls \<longrightarrow>
        fst (run (NewThrottler thr cln now) calls)
          = fst (runNoSweep (NewThrottler thr cln now) calls))"
proof (intro conjI impI)
  assume a: "at_check r - lastClean t > cleanup t \<and> valueMap t key = Some lastTime
      \<and> at_scan r key - lastTime > throttle t \<and> v \<noteq> Comparable key"
  then have "valueMap (sweep t r) key = None"
    by (simp add: sweep_def cleanupDue_def scan_def expired_def Since_def)
  with a show gone: "valueMap (snd (Allow t r v)) key = None"
    by (cases v) (auto simp: Allow_def Let_def)
  show "fst (Allow (snd (Allow t r v)) r' (Comparable key)) = Inr True"
    by (rule absent_allowed [OF gone])
next
  assume "monotonic now calls"
  then show "fst (run (NewThrottler thr cln now) calls)
      = fst (runNoSweep (NewThrottler thr cln now) calls)"
    by (rule behind_run [OF behind_refl])
qed

text \<open>
  An elapsed time equal to the cleanup interval does not start a sweep. On \<open>demo\<close>, last
  swept at 1000 with an interval of 100, a call at 1100 finds the entry of \<open>old\<close> 90
  old, above the window of 50, and leaves it in the table.
\<close>

theorem sweep_skipped_at_interval:
  "run (NewThrottler 50 100 1000)
       [(instant 1010, Comparable ''old''), (instant 1100, Comparable ''k'')]
     = ([Inr True, Inr True], demo)
   \<and> cleanup demo \<le> at_check (instant 1100 :: string readings) - lastClean demo
   \<and> valueMap demo ''old'' = Some 1010
   \<and> at_scan (instant 1100 :: string readings) ''old'' - 1010 > throttle demo
   \<and> valueMap (snd (Allow demo (instant 1100) (Comparable ''new''))) ''old'' = Some 1010"
proof -
  have kept: "valueMap (snd (Allow demo (instant 1100) (Comparable ''new''))) ''old''
      = Some 1010"
    by (simp add: demo_def Allow_def Let_def sweep_def cleanupDue_def throttled_def
          admit_def instant_def Since_def)
  have hyps: "cleanup demo \<le> at_check (instant 1100 :: string readings) - lastClean demo"
    "valueMap demo ''old'' = Some 1010"
    "at_scan (instant 1100 :: string readings) ''old'' - 1010 > throttle demo"
    by (simp_all add: demo_def instant_def)
  show ?thesis
    by (intro conjI demo_reached hyps kept)
qed

text \<open>
  The history \<open>demoCalls\<close>: three sweeps run, the third evicts \<open>k\<close>, and the results are
  those of the throttler that keeps every entry.
\<close>

lemma demoCalls_monotonic: "monotonic 0 demoCalls"
  by (simp add: demoCalls_def ordered_def instant_def)

lemma demoCalls_run:
  "fst (run (NewThrottler 200 10 0) demoCalls) = [Inr True, Inr False, Inr False, Inr True, Inr True]"
  by (simp add: demoCalls_def NewThrottler_def Allow_def Let_def sweep_def cleanupDue_def
        scan_def expired_def throttled_def admit_def instant_def Since_def)

lemma demoCalls_sweepsDue:
  "sweepsDue (NewThrottler 200 10 0) demoCalls = [False, True, True, True, False]"
  by (simp add: demoCalls_def NewThrottler_def Allow_def Let_def sweep_def cleanupDue_def
        scan_def expired_def throttled_def admit_def instant_def Since_def)

lemma demoCalls_evicted:
  "valueMap (snd (run (NewThrottler 200 10 0) (take 4 demoCalls))) ''k'' = None"
  by (simp add: demoCalls_def NewThrottler_def Allow_def Let_def sweep_def cleanupDue_def
        scan_def expired_def throttled_def admit_def instant_def Since_def)

theorem eviction_invisible_witness:
  "monotonic 0 demoCalls
   \<and> sweepsDue (NewThrottler 200 10 0) demoCalls = [False, True, True, True, False]
   \<and> valueMap (snd (run (NewThrottler 200 10 0) (take 4 demoCalls))) ''k'' = None
   \<and> fst (run (NewThrottler 200 10 0) demoCalls)
       = [Inr True, Inr False, Inr False, Inr True, Inr True]
   \<and> fst (runNoSweep (NewThrottler 200 10 0) demoCalls)
       = [Inr True, Inr False, Inr False, Inr True, Inr True]
   \<and> valueMap demo ''old'' = Some 1010
   \<and> valueMap (snd (Allow demo (instant 1120) (Comparable ''new''))) ''old'' = None
   \<and> fst (Allow (snd (Allow demo (instant 1120) (Comparable ''new'')))
            (instant 1130) (Comparable ''old'')) = Inr True"
proof -
  note th = eviction_invisible [where t = demo and r = "instant 1120" and key = "''old''"
      and lastTime = 1010 and v = "Comparable ''new''" and r' = "instant 1130"
      and now = 0 and calls = demoCalls and thr = 200 and cln = 10]
  have old: "valueMap demo ''old'' = Some 1010"
    by (simp add: demo_def)
  have hyp: "at_check (instant 1120 :: string readings) - lastClean demo > cleanup demo
      \<and> valueMap demo ''old'' = Some 1010
      \<and> at_scan (instant 1120 :: string readings) ''old'' - 1010 > throttle demo
      \<and> Comparable ''new'' \<noteq> Comparable ''old''"
    by (simp add: demo_def instant_def)
  note p1 = th [THEN conjunct1, THEN mp, OF hyp]
  note p2 = th [THEN conjunct2, THEN mp, OF demoCalls_monotonic]
  have ref: "fst (runNoSweep (NewThrottler 200 10 0) demoCalls)
       = [Inr True, Inr False, Inr False, Inr True, Inr True]"
    using p2 by (simp only: demoCalls_run)
  show ?thesis
    by (intro conjI demoCalls_monotonic demoCalls_sweepsDue demoCalls_evicted demoCalls_run ref
          old p1 [THEN conjunct1] p1 [THEN conjunct2])
qed

subsection \<open>Which calls return\<close>

text \<open>
  The map access of line 54 panics on a value that cannot be hashed. The sweep of the
  call has been done by then, and the deferred unlock leaves the struct usable.
\<close>

lemma Allow_Unhashable:
  "Allow t r Unhashable = (Inl HashOfUnhashableType, sweep t r)"
  by (simp add: Allow_def Let_def)

lemma Allow_returns:
  "(\<exists>b. fst (Allow t r v) = Inr b) \<longleftrightarrow> v \<noteq> Unhashable"
proof (cases v)
  case (Comparable key)
  then show ?thesis
    by (cases "throttled (sweep t r) r key") (auto simp: Allow_def Let_def)
next
  case NaN
  then show ?thesis by (auto simp: Allow_def Let_def)
next
  case Unhashable
  then show ?thesis by (simp add: Allow_def Let_def)
qed

lemma run_returns:
  "map (\<lambda>res. \<exists>b. res = Inr b) (fst (run t calls)) = map (\<lambda>c. snd c \<noteq> Unhashable) calls"
proof (induction calls arbitrary: t)
  case Nil
  show ?case by simp
next
  case (Cons c calls)
  obtain r v where c: "c = (r, v)" by (cases c)
  show ?case
    using Cons.IH [of "snd (Allow t r v)"] Allow_returns [of t r v] by (simp add: c)
qed

text \<open>
  C8, as the code has it. For every struct and every clock readings, \<open>Allow\<close> returns a
  boolean on every value that can be hashed, and on no other: on a value that cannot be
  hashed the call panics on line 54, after its sweep. No other step of the body can
  fail, so in a history of calls exactly the calls with a value that can be hashed
  return a boolean, whatever came before them.
\<close>

theorem Allow_returns_unless_unhashable:
  "((\<exists>b. fst (Allow t r v) = Inr b) \<longleftrightarrow> v \<noteq> Unhashable)
   \<and> (v = Unhashable \<longrightarrow> Allow t r v = (Inl HashOfUnhashableType, sweep t r))
   \<and> map (\<lambda>res. \<exists>b. res = Inr b) (fst (run t calls))
       = map (\<lambda>c. snd c \<noteq> Unhashable) calls"
  using Allow_returns [of t r v] run_returns [of t calls]
  by (auto simp: Allow_Unhashable)

text \<open>
  A call that returns no boolean: \<open>Allow\<close> with a value that cannot be hashed, on a new
  throttler.
\<close>

theorem unhashable_panics:
  "fst (Allow (NewThrottler 50 10 0 :: string throttler) (instant 5) Unhashable)
     = Inl HashOfUnhashableType
   \<and> \<not> (\<exists>b. fst (Allow (NewThrottler 50 10 0 :: string throttler) (instant 5) Unhashable)
              = Inr b)"
  by (simp add: Allow_def Let_def)

theorem Allow_returns_unless_unhashable_witness:
  "(\<exists>b. fst (Allow demo (instant 1100) (Comparable ''k'')) = Inr b)
   \<and> (\<exists>b. fst (Allow demo (instant 1100) NaN) = Inr b)
   \<and> Allow demo (instant 1120) Unhashable = (Inl HashOfUnhashableType, sweep demo (instant 1120))
   \<and> map (\<lambda>res. \<exists>b. res = Inr b)
        (fst (run demo
               [(instant 1100, Comparable ''k''), (instant 1100, Unhashable),
                (instant 1100, NaN)]))
       = [True, False, True]"
proof -
  note a = Allow_returns_unless_unhashable [where t = demo and r = "instant 1100"
      and v = "Comparable ''k''"
      and calls = "[(instant 1100, Comparable ''k''), (instant 1100, Unhashable),
                    (instant 1100, NaN)]"]
  note b = Allow_returns_unless_unhashable [where t = demo and r = "instant 1100"
      and v = NaN and calls = "[]"]
  note c = Allow_returns_unless_unhashable [where t = demo and r = "instant 1120"
      and v = Unhashable and calls = "[]"]
  from a have 1: "\<exists>b. fst (Allow demo (instant 1100) (Comparable ''k'')) = Inr b"
    by simp
  from b have 2: "\<exists>b. fst (Allow demo (instant 1100) NaN) = Inr b"
    by simp
  from c have 3: "Allow demo (instant 1120) Unhashable
      = (Inl HashOfUnhashableType, sweep demo (instant 1120))"
    by simp
  from a have 4: "map (\<lambda>res. \<exists>b. res = Inr b)
        (fst (run demo
               [(instant 1100, Comparable ''k''), (instant 1100, Unhashable),
                (instant 1100, NaN)]))
       = [True, False, True]"
    by simp
  from 1 2 3 4 show ?thesis by blast
qed

end
